theory Spec2Isabelle
  imports Main
begin

section \<open>The expiring cache of the Go package expcache\<close>

text \<open>
  The source is \<^verbatim>\<open>ExpireMap/expcache_golang/expcache.go\<close>.
  The Go program keeps a map from keys to (value, deadline) pairs, a log of pending
  ADD/DEL operations written by \<open>Put\<close> and \<open>Remove\<close>, and a sorted list of deadline
  buckets (\<open>timeouts\<close>) that only the background purger goroutine touches. The model
  passes the state explicitly; a Go run-time panic is the \<open>Inl\<close> branch of a sum.
  Every function that reads the clock in Go takes the value read as the argument \<open>now\<close>.
\<close>

subsection \<open>Machine integers\<close>

text \<open>
  Deadlines are \<open>int64\<close> nanoseconds, counters are \<open>int\<close> (64 bits on the usual
  platforms); \<open>wrap64\<close> is two's-complement wrap-around.
\<close>

definition MaxInt64 :: int where
  "MaxInt64 = 9223372036854775807"

definition wrap64 :: "int \<Rightarrow> int" where
  "wrap64 x = (x + 9223372036854775808) mod 18446744073709551616 - 9223372036854775808"

subsection \<open>Data\<close>

text \<open>\<open>TimedData\<close>: a payload and its timeout; used for map entries, log records and buckets.\<close>

record 'a TimedData =
  data :: 'a
  timeout :: int

text \<open>A value of type \<open>interface{}\<close>: \<open>nil\<close> or a proper value.\<close>

datatype 'v iface = NilValue | Value 'v

datatype Oper = ADD | DEL

record 'k KeyOper =
  key :: 'k
  oper :: Oper

text \<open>
  The channel \<open>resched\<close> has capacity one: \<open>pending\<close> says that a signal is buffered.
  The timer is either stopped (or expired) or armed with a duration.
\<close>

record chan =
  pending :: bool
  closed :: bool

datatype timer = Stopped | Armed int

datatype panic = IndexOutOfRange | CloseOfClosedChannel | SendOnClosedChannel

text \<open>
  \<open>purgerAlive\<close> is not a field of the Go struct: it records whether the goroutine
  started by \<open>go c.purger()\<close> is still inside its loop.
\<close>

record 'k TimeoutManager =
  operLog :: "'k KeyOper TimedData list"
  nextPurgeTime :: int
  cacheSize :: int
  timeouts :: "'k list TimedData list"
  pendingRatio :: int
  pendingMax :: int
  resched :: chan
  purgeTimer :: timer
  purgerAlive :: bool

text \<open>The field \<open>data\<close> of the Go struct \<open>Cache\<close> is \<open>cache_data\<close> here.\<close>

record ('k, 'v) Cache =
  cache_data :: "'k \<rightharpoonup> 'v iface TimedData"
  tm :: "'k TimeoutManager"

subsection \<open>Construction and shutdown\<close>

definition newTimeoutManager :: "int list \<Rightarrow> 'k TimeoutManager" where
  "newTimeoutManager args =
     \<lparr> operLog = [],
       nextPurgeTime = MaxInt64,
       cacheSize = 0,
       timeouts = [],
       pendingRatio = (if length args > 0 then args ! 0 else 2),
       pendingMax = (if length args > 1 then args ! 1 else 32),
       resched = \<lparr> pending = False, closed = False \<rparr>,
       purgeTimer = Stopped,
       purgerAlive = True \<rparr>"

definition New :: "int list \<Rightarrow> ('k, 'v) Cache" where
  "New args = \<lparr> cache_data = Map.empty, tm = newTimeoutManager args \<rparr>"

text \<open>\<open>close(ch)\<close> of Go: closing a closed channel panics.\<close>

definition close_chan :: "chan \<Rightarrow> panic + chan" where
  "close_chan ch = (if closed ch then Inl CloseOfClosedChannel else Inr (ch\<lparr>closed := True\<rparr>))"

definition tm_Close :: "'k TimeoutManager \<Rightarrow> panic + 'k TimeoutManager" where
  "tm_Close c =
     (let c1 = c\<lparr>purgeTimer := Stopped\<rparr>
      in case close_chan (resched c1) of
           Inl e \<Rightarrow> Inl e
         | Inr ch \<Rightarrow> Inr (c1\<lparr>resched := ch\<rparr>))"

definition Close :: "('k, 'v) Cache \<Rightarrow> panic + ('k, 'v) Cache" where
  "Close c = (case tm_Close (tm c) of Inl e \<Rightarrow> Inl e | Inr t \<Rightarrow> Inr (c\<lparr>tm := t\<rparr>))"

subsection \<open>The operation log\<close>

definition pendingLimit :: "'k TimeoutManager \<Rightarrow> int" where
  "pendingLimit c =
     (let pl = wrap64 (pendingRatio c * cacheSize c)
      in if pl < pendingMax c then pendingMax c else pl)"

definition appendAddOper :: "'k \<Rightarrow> int \<Rightarrow> int \<Rightarrow> 'k TimeoutManager \<Rightarrow> 'k TimeoutManager \<times> bool" where
  "appendAddOper k oTo nTo c =
     (let c1 = (if oTo = 0 then c\<lparr>cacheSize := wrap64 (cacheSize c + 1)\<rparr>
                else c\<lparr>operLog := operLog c @ [\<lparr>data = \<lparr>key = k, oper = DEL\<rparr>, timeout = oTo\<rparr>]\<rparr>);
          c2 = c1\<lparr>operLog := operLog c1 @ [\<lparr>data = \<lparr>key = k, oper = ADD\<rparr>, timeout = nTo\<rparr>]\<rparr>
      in (c2, oTo = nextPurgeTime c2 \<or> nTo < nextPurgeTime c2
              \<or> int (length (operLog c2)) > pendingLimit c2))"

definition appendDelOper :: "'k \<Rightarrow> int \<Rightarrow> 'k TimeoutManager \<Rightarrow> 'k TimeoutManager \<times> bool" where
  "appendDelOper k to c =
     (let c1 = c\<lparr>cacheSize := wrap64 (cacheSize c - 1)\<rparr>;
          c2 = c1\<lparr>operLog := operLog c1 @ [\<lparr>data = \<lparr>key = k, oper = DEL\<rparr>, timeout = to\<rparr>]\<rparr>
      in (c2, to = nextPurgeTime c2 \<or> int (length (operLog c2)) > pendingLimit c2))"

text \<open>
  \<open>notifyResched\<close> is a non-blocking send: it panics on a closed channel, buffers a
  signal when the buffer is free and does nothing when a signal is already buffered.
\<close>

definition notifyResched :: "'k TimeoutManager \<Rightarrow> panic + 'k TimeoutManager" where
  "notifyResched c =
     (if closed (resched c) then Inl SendOnClosedChannel
      else if pending (resched c) then Inr c
      else Inr (c\<lparr>resched := (resched c)\<lparr>pending := True\<rparr>\<rparr>))"

subsection \<open>Client operations\<close>

definition Put :: "'k \<Rightarrow> 'v iface \<Rightarrow> int \<Rightarrow> int \<Rightarrow> ('k, 'v) Cache \<Rightarrow> panic + ('k, 'v) Cache" where
  "Put k v timeoutMs now c =
     (if timeoutMs \<le> 0 then Inr c
      else
        let ent = (case cache_data c k of Some e \<Rightarrow> e | None \<Rightarrow> \<lparr>data = NilValue, timeout = 0\<rparr>);
            oTo = timeout ent;
            ent' = ent\<lparr>data := v, timeout := wrap64 (now + wrap64 (timeoutMs * 1000000))\<rparr>;
            c1 = c\<lparr>cache_data := (cache_data c)(k \<mapsto> ent')\<rparr>;
            r = appendAddOper k oTo (timeout ent') (tm c1);
            c2 = c1\<lparr>tm := fst r\<rparr>
        in if snd r
           then (case notifyResched (tm c2) of Inl e \<Rightarrow> Inl e | Inr t \<Rightarrow> Inr (c2\<lparr>tm := t\<rparr>))
           else Inr c2)"


definition Remove :: "'k \<Rightarrow> ('k, 'v) Cache \<Rightarrow> panic + (('k, 'v) Cache \<times> 'v iface)" where
  "Remove k c =
     (case cache_data c k of
        None \<Rightarrow> Inr (c, NilValue)
      | Some vt \<Rightarrow>
          let v = data vt;
              c1 = c\<lparr>cache_data := (cache_data c)(k := None)\<rparr>;
              r = appendDelOper k (timeout vt) (tm c1);
              c2 = c1\<lparr>tm := fst r\<rparr>
          in if snd r
             then (case notifyResched (tm c2) of Inl e \<Rightarrow> Inl e | Inr t \<Rightarrow> Inr (c2\<lparr>tm := t\<rparr>, v))
             else Inr (c2, v))"

text \<open>\<open>Size\<close> is \<open>len(c.data)\<close>, the number of keys of the map.\<close>

definition Size :: "('k, 'v) Cache \<Rightarrow> nat" where
  "Size c = card (dom (cache_data c))"

subsection \<open>The sorted list of timeouts, maintained by the purger\<close>

text \<open>
  \<open>sort.Search(n, f)\<close> of the Go standard library: binary search for the smallest
  index in \<open>[0, n]\<close> at which \<open>f\<close> holds; it only calls \<open>f\<close> below \<open>n\<close>.
\<close>

function search_loop :: "(nat \<Rightarrow> bool) \<Rightarrow> nat \<Rightarrow> nat \<Rightarrow> nat" where
  "search_loop f i j =
     (if i < j
      then (let h = (i + j) div 2
            in if \<not> f h then search_loop f (h + 1) j else search_loop f i h)
      else i)"
  by pat_completeness auto
termination
  by (relation "measure (\<lambda>(f, i, j). j - i)") auto

declare search_loop.simps [simp del]

definition Search :: "nat \<Rightarrow> (nat \<Rightarrow> bool) \<Rightarrow> nat" where
  "Search n f = search_loop f 0 n"

definition addKeyTimeout :: "'k \<Rightarrow> nat \<Rightarrow> 'k TimeoutManager \<Rightarrow> panic + 'k TimeoutManager" where
  "addKeyTimeout k i c =
     (if i < length (timeouts c)
      then (let keys = data (timeouts c ! i)
            in Inr (c\<lparr>timeouts := (timeouts c)[i := (timeouts c ! i)\<lparr>data := keys @ [k]\<rparr>]\<rparr>))
      else Inl IndexOutOfRange)"

text \<open>The loop of \<open>delKeyTimeout\<close> over \<open>keys[1:]\<close>: drop the first occurrence and stop.\<close>

fun del_from :: "'k \<Rightarrow> 'k list \<Rightarrow> 'k list" where
  "del_from k [] = []"
| "del_from k (x # xs) = (if k = x then xs else x # del_from k xs)"

text \<open>\<open>keys[0]\<close> is read without a check: on an empty key list the Go code panics.\<close>

definition delKeyTimeout :: "'k \<Rightarrow> nat \<Rightarrow> 'k TimeoutManager \<Rightarrow> panic + 'k TimeoutManager" where
  "delKeyTimeout k i c =
     (if i < length (timeouts c)
      then (case data (timeouts c ! i) of
              [] \<Rightarrow> Inl IndexOutOfRange
            | k0 # rest \<Rightarrow>
                (let keys = (if k = k0 then rest else k0 # del_from k rest)
                 in if length keys = 0
                    then Inr (c\<lparr>timeouts := take i (timeouts c) @ drop (i + 1) (timeouts c)\<rparr>)
                    else Inr (c\<lparr>timeouts := (timeouts c)[i := (timeouts c ! i)\<lparr>data := keys\<rparr>]\<rparr>)))
      else Inl IndexOutOfRange)"

text \<open>
  One iteration of the loop of \<open>updateTimeoutsFromPendingList\<close>. When no bucket has the
  record's timeout, an ADD opens a new bucket at index \<open>i\<close>, the later ones shifted right.
\<close>

definition applyOper :: "'k KeyOper TimedData \<Rightarrow> 'k TimeoutManager \<Rightarrow> panic + 'k TimeoutManager" where
  "applyOper kot c =
     (let ko = data kot;
          i = Search (length (timeouts c)) (\<lambda>n. timeout (timeouts c ! n) \<ge> timeout kot)
      in if i < length (timeouts c) \<and> timeout (timeouts c ! i) = timeout kot
         then (case oper ko of
                 DEL \<Rightarrow> delKeyTimeout (key ko) i c
               | ADD \<Rightarrow> addKeyTimeout (key ko) i c)
         else if oper ko = ADD
         then addKeyTimeout (key ko) i
                (c\<lparr>timeouts := take i (timeouts c) @ \<lparr>data = [], timeout = timeout kot\<rparr> # drop i (timeouts c)\<rparr>)
         else Inr c)"

fun applyOperLog :: "'k KeyOper TimedData list \<Rightarrow> 'k TimeoutManager \<Rightarrow> panic + 'k TimeoutManager" where
  "applyOperLog [] c = Inr c"
| "applyOperLog (kot # rest) c =
     (case applyOper kot c of Inl e \<Rightarrow> Inl e | Inr c' \<Rightarrow> applyOperLog rest c')"

text \<open>
  \<open>updateTimeoutsFromPendingList\<close> takes the log and empties it under the cache's lock
  (\<open>takeOperLog\<close>), then replays the records it took without the lock.
\<close>

definition takeOperLog :: "'k TimeoutManager \<Rightarrow> 'k KeyOper TimedData list \<times> 'k TimeoutManager" where
  "takeOperLog c = (operLog c, c\<lparr>operLog := []\<rparr>)"

definition updateTimeoutsFromPendingList :: "'k TimeoutManager \<Rightarrow> panic + 'k TimeoutManager" where
  "updateTimeoutsFromPendingList c = (case takeOperLog c of (log, c') \<Rightarrow> applyOperLog log c')"

subsection \<open>The expiry sweep\<close>

fun deleteKeys :: "'k list \<Rightarrow> ('k \<rightharpoonup> 'a) \<Rightarrow> ('k \<rightharpoonup> 'a)" where
  "deleteKeys [] m = m"
| "deleteKeys (k # ks) m = deleteKeys ks (m(k := None))"

fun sweep :: "int \<Rightarrow> 'k list TimedData list \<Rightarrow> ('k \<rightharpoonup> 'a) \<Rightarrow> 'k list TimedData list \<times> ('k \<rightharpoonup> 'a)" where
  "sweep now [] m = ([], m)"
| "sweep now (b # bs) m =
     (if now < timeout b then (b # bs, m) else sweep now bs (deleteKeys (data b) m))"

definition deleteExpiredEntries :: "int \<Rightarrow> ('k, 'v) Cache \<Rightarrow> ('k, 'v) Cache" where
  "deleteExpiredEntries now c =
     (if length (timeouts (tm c)) > 0 \<and> now \<ge> timeout (timeouts (tm c) ! 0)
      then (case sweep now (timeouts (tm c)) (cache_data c) of
              (ts, m) \<Rightarrow> c\<lparr>cache_data := m, tm := (tm c)\<lparr>timeouts := ts\<rparr>\<rparr>)
      else c)"

definition purgeAndResetTimer :: "int \<Rightarrow> ('k, 'v) Cache \<Rightarrow> ('k, 'v) Cache" where
  "purgeAndResetTimer now c =
     (let c1 = deleteExpiredEntries now c;
          t = tm c1;
          t1 = (if length (timeouts t) = 0 then t\<lparr>purgeTimer := Stopped\<rparr>
                else if nextPurgeTime t \<noteq> timeout (timeouts t ! 0)
                then t\<lparr>purgeTimer := Armed (wrap64 (timeout (timeouts t ! 0) - now))\<rparr>
                else t);
          t2 = (if length (timeouts t1) = 0 then t1\<lparr>nextPurgeTime := MaxInt64\<rparr>
                else if nextPurgeTime t1 \<noteq> timeout (timeouts t1 ! 0)
                then t1\<lparr>nextPurgeTime := timeout (timeouts t1 ! 0)\<rparr>
                else t1)
      in c1\<lparr>tm := t2\<rparr>)"

text \<open>Step 1 of \<open>handleResched\<close>, on the cache that owns the manager.\<close>

definition replay_pending :: "('k, 'v) Cache \<Rightarrow> panic + ('k, 'v) Cache" where
  "replay_pending c =
     (case updateTimeoutsFromPendingList (tm c) of
        Inl e \<Rightarrow> Inl e
      | Inr t \<Rightarrow> Inr (c\<lparr>tm := t\<rparr>))"

definition handleResched :: "int \<Rightarrow> ('k, 'v) Cache \<Rightarrow> panic + ('k, 'v) Cache" where
  "handleResched now c =
     (case replay_pending c of
        Inl e \<Rightarrow> Inl e
      | Inr c' \<Rightarrow> Inr (purgeAndResetTimer now c'))"

subsection \<open>The purger goroutine\<close>

text \<open>
  One iteration of the loop of \<open>purger\<close>, for the case of the \<open>select\<close> that fires.
  \<open>None\<close>: that case is not ready (the goroutine stays blocked on it) or the loop has
  ended. A receive from the closed, drained channel yields \<open>ok = false\<close> and ends the loop.
  The timer case is ready when the timer is armed; how long it takes to fire is not
  modelled, and the timer that fired counts as stopped until it is reset.
\<close>

datatype wakeup = FromResched | FromTimer

definition purger_iter :: "wakeup \<Rightarrow> int \<Rightarrow> ('k, 'v) Cache \<Rightarrow> (panic + ('k, 'v) Cache) option" where
  "purger_iter w now c =
     (if \<not> purgerAlive (tm c) then None
      else case w of
        FromResched \<Rightarrow>
          (if pending (resched (tm c))
           then Some (handleResched now (c\<lparr>tm := (tm c)\<lparr>resched := (resched (tm c))\<lparr>pending := False\<rparr>\<rparr>\<rparr>))
           else if closed (resched (tm c))
           then Some (Inr (c\<lparr>tm := (tm c)\<lparr>purgerAlive := False\<rparr>\<rparr>))
           else None)
      | FromTimer \<Rightarrow>
          (case purgeTimer (tm c) of
             Stopped \<Rightarrow> None
           | Armed d \<Rightarrow> Some (handleResched now (c\<lparr>tm := (tm c)\<lparr>purgeTimer := Stopped\<rparr>\<rparr>))))"

text \<open>A wake-up of the purger; a case of the \<open>select\<close> that is not ready changes nothing.\<close>

definition purger_wake :: "wakeup \<Rightarrow> int \<Rightarrow> ('k, 'v) Cache \<Rightarrow> panic + ('k, 'v) Cache" where
  "purger_wake w now c = (case purger_iter w now c of None \<Rightarrow> Inr c | Some r \<Rightarrow> r)"

text \<open>Sequencing of calls: a panic ends the run.\<close>

definition and_then :: "panic + 'a \<Rightarrow> ('a \<Rightarrow> panic + 'b) \<Rightarrow> panic + 'b" where
  "and_then r f = (case r of Inl e \<Rightarrow> Inl e | Inr x \<Rightarrow> f x)"

section \<open>Properties stated by the specification\<close>

text \<open>
  The ladder invariant: deadlines strictly ascending, no bucket with an empty key list.
\<close>

definition ladder_inv :: "'k list TimedData list \<Rightarrow> bool" where
  "ladder_inv ts = (sorted_wrt (<) (map timeout ts) \<and> (\<forall>b \<in> set ts. data b \<noteq> []))"

text \<open>
  The states of a run: a cache made by \<open>New\<close>, changed by the calls of its clients and by
  the steps of the purger. Between taking the log and replaying it the purger holds no
  lock, so a replay may work on any log taken earlier while clients go on.
\<close>

inductive reachable :: "('k, 'v) Cache \<Rightarrow> bool" where
  created: "reachable (New args)"
| put: "reachable c \<Longrightarrow> Put k v timeoutMs now c = Inr c' \<Longrightarrow> reachable c'"
| removed: "reachable c \<Longrightarrow> Remove k c = Inr (c', v) \<Longrightarrow> reachable c'"
| shut_down: "reachable c \<Longrightarrow> Close c = Inr c' \<Longrightarrow> reachable c'"
| log_taken: "reachable c \<Longrightarrow> reachable (c\<lparr>tm := snd (takeOperLog (tm c))\<rparr>)"
| log_replayed: "reachable c \<Longrightarrow> applyOperLog log (tm c) = Inr t \<Longrightarrow> reachable (c\<lparr>tm := t\<rparr>)"
| swept: "reachable c \<Longrightarrow> reachable (deleteExpiredEntries now c)"
| purged: "reachable c \<Longrightarrow> reachable (purgeAndResetTimer now c)"
| woken: "reachable c \<Longrightarrow> purger_iter w now c = Some (Inr c') \<Longrightarrow> reachable c'"

text \<open>The keys listed in the expired head buckets of a ladder, in sweep order.\<close>

definition expired_keys :: "int \<Rightarrow> 'k list TimedData list \<Rightarrow> 'k list" where
  "expired_keys now ts = concat (map data (takeWhile (\<lambda>b. timeout b \<le> now) ts))"

text \<open>The specification's wording: every key is in at most one record of the log.\<close>

definition one_record_per_key :: "'k KeyOper TimedData list \<Rightarrow> bool" where
  "one_record_per_key log = distinct (map (key \<circ> data) log)"

text \<open>
  The specification's wording of the bound on the log: its size is at most
  \<open>max(PendingMax, PendingRatio * |liveEntries|)\<close>, the live entries being those of the map.
\<close>

definition log_within_bound :: "('k, 'v) Cache \<Rightarrow> bool" where
  "log_within_bound c =
     (int (length (operLog (tm c)))
        \<le> max (pendingMax (tm c)) (pendingRatio (tm c) * int (Size c)))"

text \<open>
  The specification's wording of \<open>needReschedule\<close>, for the wake-up time \<open>npt\<close>, the new
  and old deadlines (\<open>None\<close> where the operation has none), the size of the log and the
  number of live entries.
\<close>

definition spec_needReschedule ::
  "int \<Rightarrow> int option \<Rightarrow> int option \<Rightarrow> nat \<Rightarrow> int \<Rightarrow> int \<Rightarrow> nat \<Rightarrow> bool" where
  "spec_needReschedule npt newTO oldTO logSize pMax pRatio live =
     (npt = MaxInt64
      \<or> (case newTO of None \<Rightarrow> False | Some n \<Rightarrow> n < npt)
      \<or> (case oldTO of None \<Rightarrow> False | Some t \<Rightarrow> t = npt)
      \<or> int logSize > max pMax (pRatio * int live))"

subsection \<open>Concrete states\<close>

text \<open>
  The state after \<open>Put("k", 1, 1)\<close> at time 0, a replay of the pending log by the purger,
  and \<open>Put("k", 2, 5)\<close> at time 999990: the bucket of deadline 1000000 still lists \<open>k\<close>,
  whose entry now has the deadline 5999990.
\<close>

definition stale_bucket_state :: "(string, nat) Cache" where
  "stale_bucket_state =
     \<lparr> cache_data = [''k'' \<mapsto> \<lparr>data = Value 2, timeout = 5999990\<rparr>],
       tm = \<lparr> operLog = [\<lparr>data = \<lparr>key = ''k'', oper = DEL\<rparr>, timeout = 1000000\<rparr>,
                         \<lparr>data = \<lparr>key = ''k'', oper = ADD\<rparr>, timeout = 5999990\<rparr>],
               nextPurgeTime = MaxInt64,
               cacheSize = 1,
               timeouts = [\<lparr>data = [''k''], timeout = 1000000\<rparr>],
               pendingRatio = 2,
               pendingMax = 32,
               resched = \<lparr>pending = True, closed = False\<rparr>,
               purgeTimer = Stopped,
               purgerAlive = True \<rparr> \<rparr>"

text \<open>
  The state of a cache made by \<open>New(1, 1)\<close> after \<open>Put("a", 1, 1)\<close> and \<open>Put("b", 2, 5)\<close>
  at time 0, a wake-up of the purger at time 1000000 that evicts \<open>a\<close>, and
  \<open>Put("c", 3, 9)\<close> at time 1000001: two entries are live, the counter \<open>cacheSize\<close> is 3.
\<close>

definition drifted_state :: "(string, nat) Cache" where
  "drifted_state =
     \<lparr> cache_data = [''b'' \<mapsto> \<lparr>data = Value 2, timeout = 5000000\<rparr>,
                     ''c'' \<mapsto> \<lparr>data = Value 3, timeout = 10000001\<rparr>],
       tm = \<lparr> operLog = [\<lparr>data = \<lparr>key = ''c'', oper = ADD\<rparr>, timeout = 10000001\<rparr>],
               nextPurgeTime = 5000000,
               cacheSize = 3,
               timeouts = [\<lparr>data = [''b''], timeout = 5000000\<rparr>],
               pendingRatio = 1,
               pendingMax = 1,
               resched = \<lparr>pending = False, closed = False\<rparr>,
               purgeTimer = Armed 4000000,
               purgerAlive = True \<rparr> \<rparr>"


section \<open>Proofs\<close>

subsection \<open>Binary search and the ladder invariant\<close>

lemma search_loop_spec:
  assumes mono: "\<And>a b. a \<le> b \<Longrightarrow> b < n \<Longrightarrow> f a \<Longrightarrow> f b"
  shows "i \<le> j \<Longrightarrow> j \<le> n \<Longrightarrow> (\<forall>m<i. \<not> f m) \<Longrightarrow> (\<forall>m. j \<le> m \<and> m < n \<longrightarrow> f m)
    \<Longrightarrow> search_loop f i j \<le> n \<and> (\<forall>m < search_loop f i j. \<not> f m)
        \<and> (\<forall>m. search_loop f i j \<le> m \<and> m < n \<longrightarrow> f m)"
  using mono
proof (induction f i j rule: search_loop.induct)
  case (1 f i j)
  note mono' = "1.prems"(5)
  show ?case
  proof (cases "i < j")
    case False
    then have "search_loop f i j = i" by (simp add: search_loop.simps[of f i j])
    moreover have "i = j" using False "1.prems"(1) by simp
    ultimately show ?thesis using "1.prems"(2,3,4) by simp
  next
    case True
    define h where "h = (i + j) div 2"
    have hb: "i \<le> h" "h < j" using True by (simp_all add: h_def)
    have hn: "h < n" using hb(2) "1.prems"(2) by simp
    show ?thesis
    proof (cases "f h")
      case fh: True
      have up: "\<forall>m. h \<le> m \<and> m < n \<longrightarrow> f m"
      proof (intro allI impI)
        fix m assume "h \<le> m \<and> m < n"
        then show "f m" using mono'[of h m] fh by simp
      qed
      have eq: "search_loop f i j = search_loop f i h"
        using True fh by (simp add: search_loop.simps[of f i j] Let_def h_def)
      have "search_loop f i h \<le> n \<and> (\<forall>m < search_loop f i h. \<not> f m)
        \<and> (\<forall>m. search_loop f i h \<le> m \<and> m < n \<longrightarrow> f m)"
      proof (rule "1.IH"(2)[OF True h_def])
        show "\<not> \<not> f h" using fh by simp
        show "i \<le> h" by (rule hb(1))
        show "h \<le> n" using hn by simp
        show "\<forall>m<i. \<not> f m" by (rule "1.prems"(3))
        show "\<forall>m. h \<le> m \<and> m < n \<longrightarrow> f m" by (rule up)
        show "\<And>a b. a \<le> b \<Longrightarrow> b < n \<Longrightarrow> f a \<Longrightarrow> f b" by (rule mono')
      qed
      then show ?thesis unfolding eq .
    next
      case nfh: False
      have low: "\<forall>m < h + 1. \<not> f m"
      proof (intro allI impI)
        fix m assume "m < h + 1"
        then have "m \<le> h" by simp
        then show "\<not> f m" using mono'[of m h] hn nfh by blast
      qed
      have eq: "search_loop f i j = search_loop f (h + 1) j"
        using True nfh by (simp add: search_loop.simps[of f i j] Let_def h_def)
      have "search_loop f (h + 1) j \<le> n \<and> (\<forall>m < search_loop f (h + 1) j. \<not> f m)
        \<and> (\<forall>m. search_loop f (h + 1) j \<le> m \<and> m < n \<longrightarrow> f m)"
      proof (rule "1.IH"(1)[OF True h_def])
        show "\<not> f h" by (rule nfh)
        show "h + 1 \<le> j" using hb(2) by simp
        show "j \<le> n" by (rule "1.prems"(2))
        show "\<forall>m<h + 1. \<not> f m" by (rule low)
        show "\<forall>m. j \<le> m \<and> m < n \<longrightarrow> f m" by (rule "1.prems"(4))
        show "\<And>a b. a \<le> b \<Longrightarrow> b < n \<Longrightarrow> f a \<Longrightarrow> f b" by (rule mono')
      qed
      then show ?thesis unfolding eq .
    qed
  qed
qed

lemma Search_sorted:
  fixes ts :: "'a TimedData list" and t :: int
  assumes "sorted_wrt (<) (map timeout ts)"
  defines "i \<equiv> Search (length ts) (\<lambda>n. timeout (ts ! n) \<ge> t)"
  shows "i \<le> length ts" "\<forall>m<i. timeout (ts ! m) < t" "\<forall>m. i \<le> m \<and> m < length ts \<longrightarrow> t \<le> timeout (ts ! m)"
proof -
  have mono: "\<And>a b. a \<le> b \<Longrightarrow> b < length ts \<Longrightarrow> t \<le> timeout (ts ! a) \<Longrightarrow> t \<le> timeout (ts ! b)"
  proof -
    fix a b assume ab: "a \<le> b" "b < length ts" "t \<le> timeout (ts ! a)"
    show "t \<le> timeout (ts ! b)"
    proof (cases "a = b")
      case True then show ?thesis using ab by simp
    next
      case False
      then have "a < b" using ab by simp
      then have "map timeout ts ! a < map timeout ts ! b"
        using assms(1) ab(2) by (simp add: sorted_wrt_iff_nth_less)
      then show ?thesis using ab \<open>a < b\<close> by simp
    qed
  qed
  define f where "f = (\<lambda>n. t \<le> timeout (ts ! n))"
  have "search_loop f 0 (length ts) \<le> length ts
     \<and> (\<forall>m < search_loop f 0 (length ts). \<not> f m)
     \<and> (\<forall>m. search_loop f 0 (length ts) \<le> m \<and> m < length ts \<longrightarrow> f m)"
  proof (rule search_loop_spec[where n = "length ts"])
    show "\<And>a b. a \<le> b \<Longrightarrow> b < length ts \<Longrightarrow> f a \<Longrightarrow> f b"
      unfolding f_def by (rule mono)
  qed auto
  then show "i \<le> length ts" "\<forall>m<i. timeout (ts ! m) < t" "\<forall>m. i \<le> m \<and> m < length ts \<longrightarrow> t \<le> timeout (ts ! m)"
    unfolding i_def Search_def f_def by (simp_all add: not_le)
qed



lemma timeout_update_data: "map timeout (ts[i := (ts ! i)\<lparr>data := x\<rparr>]) = map timeout ts"
proof (cases "i < length ts")
  case True
  then show ?thesis by (simp add: map_update list_update_same_conv)
next
  case False
  then show ?thesis by (simp add: list_update_beyond)
qed

lemma ladder_inv_update:
  assumes "ladder_inv ts" "keys \<noteq> []"
  shows "ladder_inv (ts[i := (ts ! i)\<lparr>data := keys\<rparr>])"
proof -
  have "set (ts[i := (ts ! i)\<lparr>data := keys\<rparr>]) \<subseteq> insert ((ts ! i)\<lparr>data := keys\<rparr>) (set ts)"
    by (rule set_update_subset_insert)
  then have "\<forall>b \<in> set (ts[i := (ts ! i)\<lparr>data := keys\<rparr>]). data b \<noteq> []"
    using assms unfolding ladder_inv_def by auto
  then show ?thesis using assms(1) unfolding ladder_inv_def by (simp add: timeout_update_data)
qed

lemma sorted_wrt_remove_nth:
  assumes "sorted_wrt P xs"
  shows "sorted_wrt P (take i xs @ drop (Suc i) xs)"
proof -
  have s: "sorted_wrt P (take i xs @ drop i xs)" using assms by simp
  have sub: "set (drop (Suc i) xs) \<subseteq> set (drop i xs)"
    by (rule set_drop_subset_set_drop) simp
  have "sorted_wrt P (drop (Suc i) xs)" using assms by (rule sorted_wrt_drop)
  moreover have "sorted_wrt P (take i xs)" using assms by (rule sorted_wrt_take)
  moreover have "\<forall>x\<in>set (take i xs). \<forall>y\<in>set (drop (Suc i) xs). P x y"
    using s sub unfolding sorted_wrt_append by blast
  ultimately show ?thesis unfolding sorted_wrt_append by blast
qed

lemma ladder_inv_remove:
  assumes inv: "ladder_inv ts"
  shows "ladder_inv (take i ts @ drop (Suc i) ts)"
proof -
  have "sorted_wrt (<) (take i (map timeout ts) @ drop (Suc i) (map timeout ts))"
    using inv unfolding ladder_inv_def by (intro sorted_wrt_remove_nth) simp
  then have "sorted_wrt (<) (map timeout (take i ts @ drop (Suc i) ts))"
    by (simp add: take_map drop_map)
  moreover have "\<forall>b \<in> set (take i ts @ drop (Suc i) ts). data b \<noteq> []"
    using inv by (auto simp: ladder_inv_def dest: in_set_takeD in_set_dropD)
  ultimately show ?thesis by (simp add: ladder_inv_def)
qed


lemma ladder_inv_insert:
  fixes ts :: "'k list TimedData list"
  assumes inv: "ladder_inv ts"
    and i: "i = Search (length ts) (\<lambda>n. timeout (ts ! n) \<ge> t)"
    and nf: "\<not> (i < length ts \<and> timeout (ts ! i) = t)"
    and ne: "keys \<noteq> []"
  shows "ladder_inv (take i ts @ \<lparr>data = keys, timeout = t\<rparr> # drop i ts)"
proof -
  have s: "sorted_wrt (<) (map timeout ts)" using inv by (simp add: ladder_inv_def)
  note S = Search_sorted[OF s, of t, folded i]
  have lo: "\<forall>x \<in> set (take i ts). timeout x < t"
  proof
    fix x assume "x \<in> set (take i ts)"
    then obtain m where "m < length (take i ts)" "take i ts ! m = x" by (auto simp: in_set_conv_nth)
    then show "timeout x < t" using S(2) by auto
  qed
  have hi: "\<forall>x \<in> set (drop i ts). t < timeout x"
  proof
    fix x assume "x \<in> set (drop i ts)"
    then obtain m where m: "m < length (drop i ts)" "drop i ts ! m = x" by (auto simp: in_set_conv_nth)
    then have x: "x = ts ! (i + m)" "i + m < length ts" by auto
    have ge: "t \<le> timeout (ts ! i)" "i < length ts" using S(3) x by auto
    then have ne': "t < timeout (ts ! i)" using nf by auto
    show "t < timeout x"
    proof (cases "m = 0")
      case True then show ?thesis using ne' x by simp
    next
      case False
      then have "map timeout ts ! i < map timeout ts ! (i + m)"
        using s x(2) by (simp add: sorted_wrt_iff_nth_less)
      then show ?thesis using ne' x ge by simp
    qed
  qed
  have "sorted_wrt (<) (map timeout (take i ts @ drop i ts))" using s by simp
  then have "sorted_wrt (<) (map timeout (take i ts @ \<lparr>data = keys, timeout = t\<rparr> # drop i ts))"
    using lo hi by (auto simp: sorted_wrt_append simp del: append_take_drop_id)
  moreover have "\<forall>b \<in> set (take i ts @ \<lparr>data = keys, timeout = t\<rparr> # drop i ts). data b \<noteq> []"
    using inv ne by (auto simp: ladder_inv_def dest: in_set_takeD in_set_dropD)
  ultimately show ?thesis by (simp add: ladder_inv_def)
qed

lemma ladder_inv_nth: "ladder_inv ts \<Longrightarrow> i < length ts \<Longrightarrow> data (ts ! i) \<noteq> []"
  by (simp add: ladder_inv_def)

lemma addKeyTimeout_inv:
  "ladder_inv (timeouts c) \<Longrightarrow> i < length (timeouts c) \<Longrightarrow>
     \<exists>c'. addKeyTimeout k i c = Inr c' \<and> ladder_inv (timeouts c')"
  by (simp add: addKeyTimeout_def ladder_inv_update)

lemma delKeyTimeout_inv:
  assumes "ladder_inv (timeouts c)" "i < length (timeouts c)"
  shows "\<exists>c'. delKeyTimeout k i c = Inr c' \<and> ladder_inv (timeouts c')"
proof -
  obtain k0 rest where keys: "data (timeouts c ! i) = k0 # rest"
    using ladder_inv_nth[OF assms] by (cases "data (timeouts c ! i)") auto
  show ?thesis using assms keys
    by (auto simp: delKeyTimeout_def Let_def ladder_inv_update ladder_inv_remove)
qed

lemma applyOper_inv:
  assumes inv: "ladder_inv (timeouts c)"
  shows "\<exists>c'. applyOper kot c = Inr c' \<and> ladder_inv (timeouts c')"
proof -
  define i where "i = Search (length (timeouts c)) (\<lambda>n. timeout (timeouts c ! n) \<ge> timeout kot)"
  have s: "sorted_wrt (<) (map timeout (timeouts c))" using inv by (simp add: ladder_inv_def)
  have ile: "i \<le> length (timeouts c)" using Search_sorted(1)[OF s] by (simp add: i_def)
  show ?thesis
  proof (cases "i < length (timeouts c) \<and> timeout (timeouts c ! i) = timeout kot")
    case True
    then show ?thesis
      using addKeyTimeout_inv[OF inv, of i] delKeyTimeout_inv[OF inv, of i]
      by (cases "oper (data kot)") (auto simp: applyOper_def Let_def i_def[symmetric])
  next
    case False
    show ?thesis
    proof (cases "oper (data kot)")
      case DEL
      then show ?thesis using False inv by (auto simp: applyOper_def Let_def i_def[symmetric])
    next
      case ADD
      have "ladder_inv (take i (timeouts c) @ \<lparr>data = [key (data kot)], timeout = timeout kot\<rparr> # drop i (timeouts c))"
        by (rule ladder_inv_insert[OF inv i_def False]) simp
      then show ?thesis using False ADD ile
        by (auto simp: applyOper_def Let_def i_def[symmetric] addKeyTimeout_def nth_append list_update_append)
    qed
  qed
qed

lemma applyOperLog_inv:
  "ladder_inv (timeouts c) \<Longrightarrow> \<exists>c'. applyOperLog log c = Inr c' \<and> ladder_inv (timeouts c')"
proof (induction log arbitrary: c)
  case Nil
  then show ?case by simp
next
  case (Cons kot log)
  from applyOper_inv[OF Cons.prems, of kot]
  obtain c1 where "applyOper kot c = Inr c1" "ladder_inv (timeouts c1)" by blast
  then show ?case using Cons.IH[of c1] by simp
qed


lemma deleteKeys_apply: "deleteKeys ks m k = (if k \<in> set ks then None else m k)"
  by (induction ks arbitrary: m) auto

lemma deleteKeys_append: "deleteKeys (xs @ ys) m = deleteKeys ys (deleteKeys xs m)"
  by (induction xs arbitrary: m) auto

lemma sweep_eq:
  "sweep now ts m = (dropWhile (\<lambda>b. timeout b \<le> now) ts, deleteKeys (expired_keys now ts) m)"
proof (induction ts arbitrary: m)
  case Nil
  show ?case by (simp add: expired_keys_def)
next
  case (Cons b bs)
  show ?case
  proof (cases "now < timeout b")
    case True
    then show ?thesis by (simp add: expired_keys_def)
  next
    case False
    then have "sweep now (b # bs) m = sweep now bs (deleteKeys (data b) m)" by simp
    also have "\<dots> = (dropWhile (\<lambda>b. timeout b \<le> now) bs,
                     deleteKeys (expired_keys now bs) (deleteKeys (data b) m))"
      by (rule Cons.IH)
    finally show ?thesis using False by (simp add: expired_keys_def deleteKeys_append)
  qed
qed

lemma deleteExpiredEntries_eq:
  "deleteExpiredEntries now c =
     c\<lparr>cache_data := deleteKeys (expired_keys now (timeouts (tm c))) (cache_data c),
       tm := (tm c)\<lparr>timeouts := dropWhile (\<lambda>b. timeout b \<le> now) (timeouts (tm c))\<rparr>\<rparr>"
proof (cases "timeouts (tm c)")
  case Nil
  then show ?thesis by (simp add: deleteExpiredEntries_def expired_keys_def)
next
  case (Cons b bs)
  show ?thesis
  proof (cases "now < timeout b")
    case True
    then show ?thesis using Cons by (simp add: deleteExpiredEntries_def expired_keys_def)
  next
    case False
    then show ?thesis using Cons sweep_eq[of now "b # bs" "cache_data c"]
      by (simp add: deleteExpiredEntries_def)
  qed
qed

lemma ladder_inv_dropWhile: "ladder_inv ts \<Longrightarrow> ladder_inv (dropWhile P ts)"
proof -
  assume inv: "ladder_inv ts"
  have "ts = takeWhile P ts @ dropWhile P ts" by simp
  then have "ladder_inv (takeWhile P ts @ dropWhile P ts)" using inv by simp
  then show ?thesis by (auto simp: ladder_inv_def sorted_wrt_append simp del: takeWhile_dropWhile_id)
qed


lemma applyOper_fields:
  "applyOper kot c = Inr c' \<Longrightarrow>
     purgerAlive c' = purgerAlive c \<and> resched c' = resched c \<and> purgeTimer c' = purgeTimer c
     \<and> nextPurgeTime c' = nextPurgeTime c \<and> operLog c' = operLog c \<and> cacheSize c' = cacheSize c
     \<and> pendingRatio c' = pendingRatio c \<and> pendingMax c' = pendingMax c"
  by (auto simp: applyOper_def Let_def addKeyTimeout_def delKeyTimeout_def
      split: if_splits Oper.splits list.splits)

lemma applyOperLog_fields:
  "applyOperLog log c = Inr c' \<Longrightarrow>
     purgerAlive c' = purgerAlive c \<and> resched c' = resched c \<and> purgeTimer c' = purgeTimer c
     \<and> nextPurgeTime c' = nextPurgeTime c \<and> operLog c' = operLog c \<and> cacheSize c' = cacheSize c
     \<and> pendingRatio c' = pendingRatio c \<and> pendingMax c' = pendingMax c"
proof (induction log arbitrary: c)
  case Nil
  then show ?case by simp
next
  case (Cons kot log)
  then obtain c1 where c1: "applyOper kot c = Inr c1" "applyOperLog log c1 = Inr c'"
    by (auto split: sum.splits)
  show ?case using Cons.IH[OF c1(2)] applyOper_fields[OF c1(1)] by simp
qed

lemma purgeAndResetTimer_timeouts:
  "timeouts (tm (purgeAndResetTimer now c)) = dropWhile (\<lambda>b. timeout b \<le> now) (timeouts (tm c))"
proof -
  have "timeouts (tm (purgeAndResetTimer now c)) = timeouts (tm (deleteExpiredEntries now c))"
    by (simp add: purgeAndResetTimer_def Let_def)
  then show ?thesis by (simp add: deleteExpiredEntries_eq)
qed

lemma handleResched_inv:
  assumes "ladder_inv (timeouts (tm c))"
  shows "\<exists>c'. handleResched now c = Inr c' \<and> ladder_inv (timeouts (tm c'))"
proof -
  have inv0: "ladder_inv (timeouts ((tm c)\<lparr>operLog := []\<rparr>))" using assms by simp
  from applyOperLog_inv[OF inv0, of "operLog (tm c)"]
  obtain t' where t': "applyOperLog (operLog (tm c)) ((tm c)\<lparr>operLog := []\<rparr>) = Inr t'"
    "ladder_inv (timeouts t')" by blast
  have "ladder_inv (timeouts (tm (purgeAndResetTimer now (c\<lparr>tm := t'\<rparr>))))"
    using t'(2) by (simp add: purgeAndResetTimer_timeouts ladder_inv_dropWhile)
  moreover have "handleResched now c = Inr (purgeAndResetTimer now (c\<lparr>tm := t'\<rparr>))"
    using t'(1) by (simp add: handleResched_def replay_pending_def
        updateTimeoutsFromPendingList_def takeOperLog_def)
  ultimately show ?thesis by simp
qed

lemma purgeAndResetTimer_frame:
  "purgerAlive (tm (purgeAndResetTimer now c)) = purgerAlive (tm c)
   \<and> resched (tm (purgeAndResetTimer now c)) = resched (tm c)
   \<and> (timeouts (tm (purgeAndResetTimer now c)) = [] \<longrightarrow>
        purgeTimer (tm (purgeAndResetTimer now c)) = Stopped
        \<and> nextPurgeTime (tm (purgeAndResetTimer now c)) = MaxInt64)"
proof -
  define c1 where "c1 = deleteExpiredEntries now c"
  have f: "purgerAlive (tm c1) = purgerAlive (tm c)" "resched (tm c1) = resched (tm c)"
    by (simp_all add: c1_def deleteExpiredEntries_eq)
  have "purgerAlive (tm (purgeAndResetTimer now c)) = purgerAlive (tm c1)
   \<and> resched (tm (purgeAndResetTimer now c)) = resched (tm c1)
   \<and> (timeouts (tm (purgeAndResetTimer now c)) = [] \<longrightarrow>
        purgeTimer (tm (purgeAndResetTimer now c)) = Stopped
        \<and> nextPurgeTime (tm (purgeAndResetTimer now c)) = MaxInt64)"
    unfolding purgeAndResetTimer_def Let_def c1_def[symmetric] by simp
  then show ?thesis using f by simp
qed

lemma handleResched_frame:
  assumes "handleResched now c = Inr c'"
  shows "purgerAlive (tm c') = purgerAlive (tm c) \<and> resched (tm c') = resched (tm c)
   \<and> (timeouts (tm c') = [] \<longrightarrow> purgeTimer (tm c') = Stopped \<and> nextPurgeTime (tm c') = MaxInt64)"
proof -
  obtain t where t: "applyOperLog (operLog (tm c)) ((tm c)\<lparr>operLog := []\<rparr>) = Inr t"
    "c' = purgeAndResetTimer now (c\<lparr>tm := t\<rparr>)"
    using assms
    by (auto simp: handleResched_def replay_pending_def updateTimeoutsFromPendingList_def
        takeOperLog_def split: sum.splits)
  have "purgerAlive t = purgerAlive (tm c)" "resched t = resched (tm c)"
    using applyOperLog_fields[OF t(1)] by simp_all
  then show ?thesis using purgeAndResetTimer_frame[of now "c\<lparr>tm := t\<rparr>"] t(2) by simp
qed

lemma Put_timeouts: "Put k v ms now c = Inr c' \<Longrightarrow> timeouts (tm c') = timeouts (tm c)"
  by (auto simp: Put_def Let_def appendAddOper_def notifyResched_def split: if_splits sum.splits)

lemma Remove_timeouts: "Remove k c = Inr (c', v) \<Longrightarrow> timeouts (tm c') = timeouts (tm c)"
  by (auto simp: Remove_def Let_def appendDelOper_def notifyResched_def
      split: if_splits sum.splits option.splits)

lemma Close_timeouts: "Close c = Inr c' \<Longrightarrow> timeouts (tm c') = timeouts (tm c)"
  by (auto simp: Close_def tm_Close_def close_chan_def Let_def split: if_splits sum.splits)

lemma purger_iter_inv:
  assumes "ladder_inv (timeouts (tm c))" "purger_iter w now c = Some (Inr c')"
  shows "ladder_inv (timeouts (tm c'))"
proof (cases w)
  case FromResched
  show ?thesis
  proof (cases "pending (resched (tm c))")
    case True
    let ?c = "c\<lparr>tm := (tm c)\<lparr>resched := (resched (tm c))\<lparr>pending := False\<rparr>\<rparr>\<rparr>"
    have "handleResched now ?c = Inr c'"
      using assms(2) FromResched True by (simp add: purger_iter_def split: if_splits)
    moreover have "ladder_inv (timeouts (tm ?c))" using assms(1) by simp
    ultimately show ?thesis using handleResched_inv[of ?c now] by auto
  next
    case False
    then show ?thesis using assms FromResched
      by (auto simp: purger_iter_def split: if_splits)
  qed
next
  case FromTimer
  let ?c = "c\<lparr>tm := (tm c)\<lparr>purgeTimer := Stopped\<rparr>\<rparr>"
  have "handleResched now ?c = Inr c'"
    using assms(2) FromTimer by (simp add: purger_iter_def split: if_splits timer.splits)
  moreover have "ladder_inv (timeouts (tm ?c))" using assms(1) by simp
  ultimately show ?thesis using handleResched_inv[of ?c now] by auto
qed

lemma reachable_ladder_inv: "reachable c \<Longrightarrow> ladder_inv (timeouts (tm c))"
proof (induction rule: reachable.induct)
  case (created args)
  show ?case by (simp add: ladder_inv_def New_def newTimeoutManager_def)
next
  case (put c k v timeoutMs now c')
  then show ?case by (simp add: Put_timeouts)
next
  case (removed c k c' v)
  then show ?case by (simp add: Remove_timeouts)
next
  case (shut_down c c')
  then show ?case by (simp add: Close_timeouts)
next
  case (log_taken c)
  then show ?case by (simp add: takeOperLog_def)
next
  case (log_replayed c log t)
  then show ?case using applyOperLog_inv[of "tm c" log] by auto
next
  case (swept c now)
  then show ?case by (simp add: deleteExpiredEntries_eq ladder_inv_dropWhile)
next
  case (purged c now)
  then show ?case by (simp add: purgeAndResetTimer_timeouts ladder_inv_dropWhile)
next
  case (woken c w now c')
  then show ?case by (auto intro: purger_iter_inv)
qed

subsection \<open>Concrete runs\<close>

lemma Search_0: "Search 0 f = 0"
  by (simp add: Search_def search_loop.simps[of f 0 0])

lemma Search_1: "Search (Suc 0) f = (if f 0 then 0 else 1)"
  by (simp add: Search_def search_loop.simps[of f 0 "Suc 0"] search_loop.simps[of f 0 0]
      search_loop.simps[of f "Suc 0" "Suc 0"] Let_def)

lemma stale_bucket_run:
  "and_then (and_then (Put ''k'' (Value 1) 1 0 (New [])) replay_pending)
            (Put ''k'' (Value 2) 5 999990) = Inr stale_bucket_state"
  by (simp add: and_then_def Put_def New_def newTimeoutManager_def appendAddOper_def Let_def
      notifyResched_def wrap64_def MaxInt64_def pendingLimit_def replay_pending_def
      updateTimeoutsFromPendingList_def takeOperLog_def applyOper_def Search_0
      addKeyTimeout_def stale_bucket_state_def)

lemma drifted_run:
  "and_then (and_then (and_then (Put ''a'' (Value 1) 1 0 (New [1, 1])) (Put ''b'' (Value 2) 5 0))
                      (purger_wake FromResched 1000000))
            (Put ''c'' (Value 3) 9 1000001) = Inr drifted_state"
  by (simp add: and_then_def Put_def New_def newTimeoutManager_def appendAddOper_def Let_def
      notifyResched_def wrap64_def MaxInt64_def pendingLimit_def replay_pending_def
      updateTimeoutsFromPendingList_def takeOperLog_def applyOper_def Search_0 Search_1
      addKeyTimeout_def drifted_state_def purger_wake_def purger_iter_def handleResched_def
      purgeAndResetTimer_def deleteExpiredEntries_def)



lemma and_then_Inr: "and_then r f = Inr y \<longleftrightarrow> (\<exists>x. r = Inr x \<and> f x = Inr y)"
  by (cases r) (simp_all add: and_then_def)

lemma reachable_replay_pending:
  assumes "reachable c" "replay_pending c = Inr c'"
  shows "reachable c'"
proof -
  let ?c1 = "c\<lparr>tm := snd (takeOperLog (tm c))\<rparr>"
  obtain t where t: "applyOperLog (operLog (tm c)) (tm ?c1) = Inr t" "c' = c\<lparr>tm := t\<rparr>"
    using assms(2)
    by (auto simp: replay_pending_def updateTimeoutsFromPendingList_def takeOperLog_def
        split: sum.splits)
  have "reachable ?c1" using assms(1) by (rule reachable.log_taken)
  then have "reachable (?c1\<lparr>tm := t\<rparr>)" using t(1) by (rule reachable.log_replayed)
  then show ?thesis using t(2) by simp
qed

lemma reachable_stale_bucket_state: "reachable stale_bucket_state"
proof -
  obtain s1 s2 where s: "Put ''k'' (Value 1) 1 0 (New [] :: (string, nat) Cache) = Inr s1"
    "replay_pending s1 = Inr s2" "Put ''k'' (Value 2) 5 999990 s2 = Inr stale_bucket_state"
    using stale_bucket_run unfolding and_then_Inr by blast
  have "reachable (New [] :: (string, nat) Cache)" by (rule reachable.created)
  then have "reachable s1" using s(1) by (rule reachable.put)
  then have "reachable s2" using s(2) by (rule reachable_replay_pending)
  then show ?thesis using s(3) by (rule reachable.put)
qed

section \<open>The claims\<close>

subsection \<open>C1: the expiry sweep\<close>

text \<open>
  C1 fails on the code: \<open>deleteExpiredEntries\<close> deletes the entry of every key listed in
  an expired head bucket and never compares the entry's deadline with the bucket's. In
  \<open>stale_bucket_state\<close>, reached by the run below, the entry of \<open>k\<close> has the deadline
  5999990, the head bucket has the deadline 1000000 and still lists \<open>k\<close>, and the sweep at
  time 1000000 deletes the entry, almost 5 ms before its deadline.
\<close>

theorem sweep_deletes_replaced_entry:
  "and_then (and_then (Put ''k'' (Value 1) 1 0 (New [])) replay_pending)
            (Put ''k'' (Value 2) 5 999990) = Inr stale_bucket_state
   \<and> timeouts (tm stale_bucket_state) = [\<lparr>data = [''k''], timeout = 1000000\<rparr>]
   \<and> cache_data stale_bucket_state ''k'' = Some \<lparr>data = Value 2, timeout = 5999990\<rparr>
   \<and> cache_data (deleteExpiredEntries 1000000 stale_bucket_state) ''k'' = None"
  using stale_bucket_run
  by (simp add: stale_bucket_state_def deleteExpiredEntries_def)

subsection \<open>C2: the records of the log\<close>

text \<open>
  C2, as the code has it: the log is a list that is only appended to, with no coalescing.
  \<open>appendAddOper\<close> appends one ADD record with the new deadline when the old deadline is
  0 (a new entry), and otherwise a DEL record with the old deadline followed by an ADD
  record with the new one; \<open>appendDelOper\<close> appends one DEL record. The records already
  in the log stay, whatever their keys.
\<close>

theorem append_records:
  "operLog (fst (appendAddOper k oTo nTo c)) =
     operLog c @ (if oTo = 0 then [\<lparr>data = \<lparr>key = k, oper = ADD\<rparr>, timeout = nTo\<rparr>]
                  else [\<lparr>data = \<lparr>key = k, oper = DEL\<rparr>, timeout = oTo\<rparr>,
                        \<lparr>data = \<lparr>key = k, oper = ADD\<rparr>, timeout = nTo\<rparr>])
   \<and> operLog (fst (appendDelOper k to c)) =
     operLog c @ [\<lparr>data = \<lparr>key = k, oper = DEL\<rparr>, timeout = to\<rparr>]"
  by (simp add: appendAddOper_def appendDelOper_def Let_def)

theorem append_records_witness:
  "operLog (fst (appendAddOper ''c'' 10000001 10000002 (tm drifted_state))) =
     [\<lparr>data = \<lparr>key = ''c'', oper = ADD\<rparr>, timeout = 10000001\<rparr>,
      \<lparr>data = \<lparr>key = ''c'', oper = DEL\<rparr>, timeout = 10000001\<rparr>,
      \<lparr>data = \<lparr>key = ''c'', oper = ADD\<rparr>, timeout = 10000002\<rparr>]
   \<and> operLog (fst (appendDelOper ''c'' 10000001 (tm drifted_state))) =
     [\<lparr>data = \<lparr>key = ''c'', oper = ADD\<rparr>, timeout = 10000001\<rparr>,
      \<lparr>data = \<lparr>key = ''c'', oper = DEL\<rparr>, timeout = 10000001\<rparr>]"
  using append_records [of "''c''" 10000001 10000002 "tm drifted_state" 10000001]
  by (simp add: drifted_state_def)

text \<open>
  C2 as the specification states it fails: two calls of \<open>Put\<close> for the same key leave
  three records of that key in the log.
\<close>

theorem replace_logs_a_key_twice:
  "map_sum id (operLog \<circ> tm)
     (and_then (Put ''a'' (Value (1::nat)) 1 0 (New [])) (Put ''a'' (Value 2) 1 1))
   = Inr [\<lparr>data = \<lparr>key = ''a'', oper = ADD\<rparr>, timeout = 1000000\<rparr>,
          \<lparr>data = \<lparr>key = ''a'', oper = DEL\<rparr>, timeout = 1000000\<rparr>,
          \<lparr>data = \<lparr>key = ''a'', oper = ADD\<rparr>, timeout = 1000001\<rparr>]
   \<and> \<not> one_record_per_key
         [\<lparr>data = \<lparr>key = ''a'', oper = ADD\<rparr>, timeout = 1000000\<rparr>,
          \<lparr>data = \<lparr>key = ''a'', oper = DEL\<rparr>, timeout = 1000000\<rparr>,
          \<lparr>data = \<lparr>key = ''a'', oper = ADD\<rparr>, timeout = 1000001\<rparr>]"
  by (simp add: and_then_def Put_def New_def newTimeoutManager_def appendAddOper_def Let_def
        notifyResched_def wrap64_def MaxInt64_def pendingLimit_def one_record_per_key_def)

subsection \<open>C3: the bound on the log\<close>

text \<open>
  C3 fails on the code: \<open>pendingLimit\<close> reads the counter \<open>cacheSize\<close>, which
  \<open>deleteExpiredEntries\<close> does not decrease when it evicts. In \<open>drifted_state\<close>, reached by
  the run below, \<open>Put("c", 4, 9)\<close> sends no signal (none is buffered afterwards) although
  the log then holds 3 records, the map 2 entries, and \<open>max(1, 1 * 2) = 2\<close>.
\<close>

theorem log_bound_broken_after_eviction:
  "and_then (and_then (and_then (Put ''a'' (Value 1) 1 0 (New [1, 1])) (Put ''b'' (Value 2) 5 0))
                      (purger_wake FromResched 1000000))
            (Put ''c'' (Value 3) 9 1000001) = Inr drifted_state
   \<and> map_sum id (pending \<circ> resched \<circ> tm) (Put ''c'' (Value 4) 9 1000002 drifted_state) = Inr False
   \<and> map_sum id (length \<circ> operLog \<circ> tm) (Put ''c'' (Value 4) 9 1000002 drifted_state) = Inr 3
   \<and> map_sum id (cacheSize \<circ> tm) (Put ''c'' (Value 4) 9 1000002 drifted_state) = Inr 3
   \<and> map_sum id Size (Put ''c'' (Value 4) 9 1000002 drifted_state) = Inr 2
   \<and> map_sum id log_within_bound (Put ''c'' (Value 4) 9 1000002 drifted_state) = Inr False"
  using drifted_run
  by (simp add: Put_def drifted_state_def appendAddOper_def Let_def notifyResched_def
      wrap64_def pendingLimit_def log_within_bound_def Size_def)

subsection \<open>C4: the life of the purger\<close>

text \<open>
  C4, as the code has it: \<open>New\<close> starts the purger at once, before any signal;
  \<open>notifyResched\<close> never starts or ends it; an iteration of its loop leaves it running
  unless it received from the closed, drained channel, which is the only way the loop
  ends; and after an iteration that leaves the ladder empty the timer is stopped and
  \<open>nextPurgeTime\<close> is \<open>MaxInt64\<close>: no idle timeout is armed.
\<close>

theorem purger_lifecycle:
  "purgerAlive (tm (New args))
   \<and> (notifyResched t = Inr t' \<longrightarrow> purgerAlive t' = purgerAlive t)
   \<and> (purger_iter w now c = Some (Inr c') \<longrightarrow>
        purgerAlive (tm c')
          = (\<not> (w = FromResched \<and> \<not> pending (resched (tm c)) \<and> closed (resched (tm c)))))
   \<and> (purger_iter w now c = Some (Inr c') \<and> purgerAlive (tm c') \<and> timeouts (tm c') = [] \<longrightarrow>
        purgeTimer (tm c') = Stopped \<and> nextPurgeTime (tm c') = MaxInt64)"
proof -
  have new: "purgerAlive (tm (New args))" by (simp add: New_def newTimeoutManager_def)
  have notify: "notifyResched t = Inr t' \<longrightarrow> purgerAlive t' = purgerAlive t"
    by (auto simp: notifyResched_def split: if_splits)
  have step: "purgerAlive (tm c')
          = (\<not> (w = FromResched \<and> \<not> pending (resched (tm c)) \<and> closed (resched (tm c))))
        \<and> (purgerAlive (tm c') \<and> timeouts (tm c') = [] \<longrightarrow>
              purgeTimer (tm c') = Stopped \<and> nextPurgeTime (tm c') = MaxInt64)"
    if it: "purger_iter w now c = Some (Inr c')"
  proof -
    have alive: "purgerAlive (tm c)" using it by (auto simp: purger_iter_def split: if_splits)
    show ?thesis
    proof (cases w)
      case FromResched
      show ?thesis
      proof (cases "pending (resched (tm c))")
        case True
        let ?c = "c\<lparr>tm := (tm c)\<lparr>resched := (resched (tm c))\<lparr>pending := False\<rparr>\<rparr>\<rparr>"
        have "handleResched now ?c = Inr c'"
          using it FromResched True alive by (simp add: purger_iter_def)
        from handleResched_frame[OF this] show ?thesis using alive True by simp
      next
        case False
        then show ?thesis using it FromResched alive
          by (auto simp: purger_iter_def split: if_splits)
      qed
    next
      case FromTimer
      let ?c = "c\<lparr>tm := (tm c)\<lparr>purgeTimer := Stopped\<rparr>\<rparr>"
      have "handleResched now ?c = Inr c'"
        using it FromTimer alive by (simp add: purger_iter_def split: timer.splits)
      from handleResched_frame[OF this] show ?thesis using alive FromTimer by simp
    qed
  qed
  show ?thesis using new notify step by blast
qed

theorem purger_lifecycle_witness:
  "purger_iter FromResched 1000000 stale_bucket_state
     = Some (Inr (stale_bucket_state
         \<lparr>tm := (tm stale_bucket_state)
           \<lparr>operLog := [],
            timeouts := [\<lparr>data = [''k''], timeout = 5999990\<rparr>],
            nextPurgeTime := 5999990,
            resched := \<lparr>pending = False, closed = False\<rparr>,
            purgeTimer := Armed 4999990\<rparr>\<rparr>))
   \<and> purgerAlive (tm (stale_bucket_state
         \<lparr>tm := (tm stale_bucket_state)
           \<lparr>operLog := [],
            timeouts := [\<lparr>data = [''k''], timeout = 5999990\<rparr>],
            nextPurgeTime := 5999990,
            resched := \<lparr>pending = False, closed = False\<rparr>,
            purgeTimer := Armed 4999990\<rparr>\<rparr>))"
proof -
  let ?c' = "stale_bucket_state
         \<lparr>tm := (tm stale_bucket_state)
           \<lparr>operLog := [],
            timeouts := [\<lparr>data = [''k''], timeout = 5999990\<rparr>],
            nextPurgeTime := 5999990,
            resched := \<lparr>pending = False, closed = False\<rparr>,
            purgeTimer := Armed 4999990\<rparr>\<rparr>"
  have it: "purger_iter FromResched 1000000 stale_bucket_state = Some (Inr ?c')"
    by (simp add: stale_bucket_state_def purger_iter_def handleResched_def replay_pending_def
        updateTimeoutsFromPendingList_def takeOperLog_def applyOper_def Search_0 Search_1
        addKeyTimeout_def delKeyTimeout_def purgeAndResetTimer_def deleteExpiredEntries_def
        Let_def wrap64_def MaxInt64_def)
  have p: "pending (resched (tm stale_bucket_state))" "purgerAlive (tm stale_bucket_state)"
    by (simp_all add: stale_bucket_state_def)
  show ?thesis
    using it p purger_lifecycle [of "[]" "tm stale_bucket_state" "tm stale_bucket_state"
        FromResched 1000000 stale_bucket_state ?c']
    by simp
qed

text \<open>
  C4 as the specification states it fails: right after \<open>New\<close>, with no signal sent, the
  purger is running; no timer is armed for an idle timeout, and three seconds later the
  purger is still running.
\<close>

theorem purger_spawned_by_New:
  "purgerAlive (tm (New [] :: (string, nat) Cache))
   \<and> \<not> pending (resched (tm (New [] :: (string, nat) Cache)))
   \<and> purger_iter FromTimer 3000000000 (New [] :: (string, nat) Cache) = None
   \<and> map_sum id (purgerAlive \<circ> tm) (purger_wake FromTimer 3000000000 (New [] :: (string, nat) Cache)) = Inr True"
  by (simp add: New_def newTimeoutManager_def purger_wake_def purger_iter_def)

subsection \<open>C5: when a reschedule is needed\<close>

text \<open>
  C5, as the code has it, in states where the counter \<open>cacheSize\<close> after the call is
  the number of live entries and the product with \<open>pendingRatio\<close> does not overflow:
  \<open>appendAddOper\<close> returns true exactly when the old deadline equals \<open>nextPurgeTime\<close>, or
  the new deadline is earlier than \<open>nextPurgeTime\<close>, or the log after the append is longer
  than \<open>max(pendingMax, pendingRatio * live)\<close>; \<open>appendDelOper\<close> returns true exactly when
  the old deadline equals \<open>nextPurgeTime\<close> or the log is longer than that bound. That the
  purger is idle is no condition of its own in either.
\<close>

theorem needResched_exact:
  "(cacheSize (fst (appendAddOper k oTo nTo c)) = int liveA
      \<and> wrap64 (pendingRatio c * int liveA) = pendingRatio c * int liveA \<longrightarrow>
    snd (appendAddOper k oTo nTo c) =
      (oTo = nextPurgeTime c \<or> nTo < nextPurgeTime c
       \<or> int (length (operLog (fst (appendAddOper k oTo nTo c))))
            > max (pendingMax c) (pendingRatio c * int liveA)))
   \<and> (cacheSize (fst (appendDelOper k to c)) = int liveD
      \<and> wrap64 (pendingRatio c * int liveD) = pendingRatio c * int liveD \<longrightarrow>
    snd (appendDelOper k to c) =
      (to = nextPurgeTime c
       \<or> int (length (operLog (fst (appendDelOper k to c))))
            > max (pendingMax c) (pendingRatio c * int liveD)))"
proof -
  have add: "cacheSize (fst (appendAddOper k oTo nTo c)) = int liveA
      \<and> wrap64 (pendingRatio c * int liveA) = pendingRatio c * int liveA \<longrightarrow>
    snd (appendAddOper k oTo nTo c) =
      (oTo = nextPurgeTime c \<or> nTo < nextPurgeTime c
       \<or> int (length (operLog (fst (appendAddOper k oTo nTo c))))
            > max (pendingMax c) (pendingRatio c * int liveA))"
    by (cases "oTo = 0") (auto simp: appendAddOper_def Let_def pendingLimit_def max_def)
  have del: "cacheSize (fst (appendDelOper k to c)) = int liveD
      \<and> wrap64 (pendingRatio c * int liveD) = pendingRatio c * int liveD \<longrightarrow>
    snd (appendDelOper k to c) =
      (to = nextPurgeTime c
       \<or> int (length (operLog (fst (appendDelOper k to c))))
            > max (pendingMax c) (pendingRatio c * int liveD))"
    by (auto simp: appendDelOper_def Let_def pendingLimit_def max_def)
  show ?thesis using add del by blast
qed

theorem needResched_exact_witness:
  "cacheSize (fst (appendAddOper ''k'' 5999990 7000000 (tm stale_bucket_state))) = int 1
   \<and> snd (appendAddOper ''k'' 5999990 7000000 (tm stale_bucket_state)) = True
   \<and> cacheSize (fst (appendDelOper ''k'' 5999990 (tm stale_bucket_state))) = int 0
   \<and> snd (appendDelOper ''k'' 5999990 (tm stale_bucket_state)) = False"
proof -
  have a: "cacheSize (fst (appendAddOper ''k'' 5999990 7000000 (tm stale_bucket_state))) = int 1
      \<and> wrap64 (pendingRatio (tm stale_bucket_state) * int 1) = pendingRatio (tm stale_bucket_state) * int 1"
    and d: "cacheSize (fst (appendDelOper ''k'' 5999990 (tm stale_bucket_state))) = int 0
      \<and> wrap64 (pendingRatio (tm stale_bucket_state) * int 0) = pendingRatio (tm stale_bucket_state) * int 0"
    by (simp_all add: stale_bucket_state_def appendAddOper_def appendDelOper_def Let_def wrap64_def)
  have v: "nextPurgeTime (tm stale_bucket_state) = MaxInt64"
    "pendingMax (tm stale_bucket_state) = 32" "pendingRatio (tm stale_bucket_state) = 2"
    "length (operLog (fst (appendDelOper ''k'' 5999990 (tm stale_bucket_state)))) = 3"
    by (simp_all add: stale_bucket_state_def appendDelOper_def Let_def)
  show ?thesis
    using a d v needResched_exact [of "''k''" 5999990 7000000 "tm stale_bucket_state" 1 5999990 0]
    by (simp add: MaxInt64_def)
qed

text \<open>
  C5 as the specification states it fails: with the purger idle (\<open>nextPurgeTime\<close> is
  \<open>MaxInt64\<close>) \<open>appendAddOper\<close> returns false for the new deadline \<open>MaxInt64\<close> (which
  \<open>Put\<close> computes from the time 1700000000000775807 and 7523372036854 ms, and then sends
  no signal), and \<open>appendDelOper\<close> returns false for an entry added just before.
\<close>

theorem needResched_differs_from_spec:
  "nextPurgeTime (tm (New [] :: (string, nat) Cache)) = MaxInt64
   \<and> map_sum id (pending \<circ> resched \<circ> tm)
        (Put ''k'' (Value (1::nat)) 7523372036854 1700000000000775807 (New [])) = Inr False
   \<and> snd (appendAddOper ''k'' 0 MaxInt64 (tm (New [] :: (string, nat) Cache))) = False
   \<and> spec_needReschedule MaxInt64 (Some MaxInt64) None 1 32 2 1 = True
   \<and> snd (appendDelOper ''k'' 1000000 (fst (appendAddOper ''k'' 0 1000000 (tm (New [] :: (string, nat) Cache)))))
       = False
   \<and> spec_needReschedule MaxInt64 None (Some 1000000) 2 32 2 0 = True"
  by (simp add: Put_def New_def newTimeoutManager_def appendAddOper_def appendDelOper_def Let_def
      notifyResched_def wrap64_def MaxInt64_def pendingLimit_def spec_needReschedule_def)

subsection \<open>C6: the ladder invariant\<close>

text \<open>
  C6: a replay of the pending log and an expiry sweep preserve the ladder invariant: if
  the deadlines of the buckets are strictly ascending and no bucket has an empty key
  list, then the replay returns without a panic, and after the replay, after the sweep
  and after a whole \<open>handleResched\<close> the same holds again.
\<close>

theorem ladder_inv_preserved:
  assumes "ladder_inv (timeouts (tm c))"
  shows "(\<exists>t'. updateTimeoutsFromPendingList (tm c) = Inr t' \<and> ladder_inv (timeouts t'))
       \<and> ladder_inv (timeouts (tm (deleteExpiredEntries now c)))
       \<and> (\<exists>c'. handleResched now c = Inr c' \<and> ladder_inv (timeouts (tm c')))"
proof -
  have inv0: "ladder_inv (timeouts ((tm c)\<lparr>operLog := []\<rparr>))" using assms by simp
  from applyOperLog_inv[OF inv0, of "operLog (tm c)"]
  obtain t' where t': "applyOperLog (operLog (tm c)) ((tm c)\<lparr>operLog := []\<rparr>) = Inr t'"
    "ladder_inv (timeouts t')" by blast
  have upd: "updateTimeoutsFromPendingList (tm c) = Inr t'"
    using t'(1) by (simp add: updateTimeoutsFromPendingList_def takeOperLog_def)
  have sw: "\<And>d. ladder_inv (timeouts (tm d)) \<Longrightarrow> ladder_inv (timeouts (tm (deleteExpiredEntries now d)))"
    by (simp add: deleteExpiredEntries_eq ladder_inv_dropWhile)
  have "ladder_inv (timeouts (tm (purgeAndResetTimer now (c\<lparr>tm := t'\<rparr>))))"
    using t'(2) by (simp add: purgeAndResetTimer_timeouts ladder_inv_dropWhile)
  moreover have "handleResched now c = Inr (purgeAndResetTimer now (c\<lparr>tm := t'\<rparr>))"
    using upd by (simp add: handleResched_def replay_pending_def)
  ultimately show ?thesis using upd t'(2) sw[OF assms] by simp
qed

theorem ladder_inv_preserved_witness:
  "ladder_inv (timeouts (tm stale_bucket_state))
   \<and> (\<exists>t'. updateTimeoutsFromPendingList (tm stale_bucket_state) = Inr t' \<and> ladder_inv (timeouts t'))
   \<and> ladder_inv (timeouts (tm (deleteExpiredEntries 1000000 stale_bucket_state)))
   \<and> (\<exists>c'. handleResched 1000000 stale_bucket_state = Inr c' \<and> ladder_inv (timeouts (tm c')))"
proof -
  have h: "ladder_inv (timeouts (tm stale_bucket_state))"
    by (simp add: ladder_inv_def stale_bucket_state_def)
  show ?thesis using h ladder_inv_preserved [OF h, of 1000000] by simp
qed

subsection \<open>C7: closing twice\<close>

text \<open>
  C7, as the code has it: \<open>Close\<close> on a store whose channel is open stops the timer and
  closes the channel, and changes nothing else; \<open>Close\<close> on a store whose channel is
  closed panics.
\<close>

theorem Close_once:
  "(\<not> closed (resched (tm c)) \<longrightarrow>
      Close c = Inr (c\<lparr>tm := (tm c)\<lparr>purgeTimer := Stopped, resched := (resched (tm c))\<lparr>closed := True\<rparr>\<rparr>\<rparr>))
   \<and> (closed (resched (tm c)) \<longrightarrow> Close c = Inl CloseOfClosedChannel)"
  by (simp add: Close_def tm_Close_def close_chan_def)

theorem Close_once_witness:
  "Close stale_bucket_state =
     Inr (stale_bucket_state\<lparr>tm := (tm stale_bucket_state)\<lparr>purgeTimer := Stopped,
            resched := \<lparr>pending = True, closed = True\<rparr>\<rparr>\<rparr>)
   \<and> Close (stale_bucket_state\<lparr>tm := (tm stale_bucket_state)\<lparr>purgeTimer := Stopped,
            resched := \<lparr>pending = True, closed = True\<rparr>\<rparr>\<rparr>) = Inl CloseOfClosedChannel"
  using Close_once [of stale_bucket_state]
    Close_once [of "stale_bucket_state\<lparr>tm := (tm stale_bucket_state)\<lparr>purgeTimer := Stopped,
            resched := \<lparr>pending = True, closed = True\<rparr>\<rparr>\<rparr>"]
  by (simp add: stale_bucket_state_def)

text \<open>
  C7 as the specification states it fails: the second \<open>Close\<close> of a new cache panics.
\<close>

theorem Close_twice_panics:
  "and_then (Close (New [] :: (string, nat) Cache)) Close = Inl CloseOfClosedChannel"
  by (simp add: and_then_def Close_def tm_Close_def close_chan_def New_def newTimeoutManager_def)

subsection \<open>C8: a timeout that is not positive\<close>

text \<open>
  C8: for every key, value and \<open>timeoutMs \<le> 0\<close>, \<open>Put\<close> returns the state it was given:
  the map, the log, the ladder, \<open>nextPurgeTime\<close> and the signal channel are unchanged.
\<close>

theorem Put_nonpositive_timeout_unchanged:
  "timeoutMs \<le> 0 \<Longrightarrow> Put k v timeoutMs now c = Inr c"
  by (simp add: Put_def)

theorem Put_nonpositive_timeout_unchanged_witness:
  "(0::int) \<le> 0 \<and> Put ''a'' (Value (1::nat)) 0 100 stale_bucket_state = Inr stale_bucket_state"
  using Put_nonpositive_timeout_unchanged [of 0 "''a''" "Value (1::nat)" 100 stale_bucket_state]
  by simp

subsection \<open>C9: no panic in the replay\<close>

text \<open>
  C9: in every reachable state each bucket of the ladder has a non-empty key list, so
  \<open>delKeyTimeout\<close> at any index of the ladder reads \<open>keys[0]\<close> without a panic; the
  replay of any log and \<open>handleResched\<close> return without a panic; and a DEL record whose
  deadline has no bucket (for one, because the bucket was evicted) leaves the manager
  unchanged.
\<close>

theorem replay_del_never_panics:
  assumes "reachable c"
  shows "(i < length (timeouts (tm c)) \<longrightarrow>
            data (timeouts (tm c) ! i) \<noteq> [] \<and> (\<exists>t'. delKeyTimeout k i (tm c) = Inr t'))
       \<and> (\<exists>t'. applyOperLog log (tm c) = Inr t')
       \<and> (\<exists>c'. handleResched now c = Inr c')
       \<and> (t \<notin> timeout ` set (timeouts (tm c)) \<longrightarrow>
            applyOper \<lparr>data = \<lparr>key = k, oper = DEL\<rparr>, timeout = t\<rparr> (tm c) = Inr (tm c))"
proof -
  have inv: "ladder_inv (timeouts (tm c))" using assms by (rule reachable_ladder_inv)
  have "i < length (timeouts (tm c)) \<longrightarrow>
            data (timeouts (tm c) ! i) \<noteq> [] \<and> (\<exists>t'. delKeyTimeout k i (tm c) = Inr t')"
    using delKeyTimeout_inv[OF inv, of i k] ladder_inv_nth[OF inv, of i] by blast
  moreover have "\<exists>t'. applyOperLog log (tm c) = Inr t'"
    using applyOperLog_inv[OF inv, of log] by blast
  moreover have "\<exists>c'. handleResched now c = Inr c'"
    using handleResched_inv[OF inv, of now] by blast
  moreover have "t \<notin> timeout ` set (timeouts (tm c)) \<longrightarrow>
            applyOper \<lparr>data = \<lparr>key = k, oper = DEL\<rparr>, timeout = t\<rparr> (tm c) = Inr (tm c)"
  proof
    assume no: "t \<notin> timeout ` set (timeouts (tm c))"
    have "\<And>j. j < length (timeouts (tm c)) \<Longrightarrow> timeout (timeouts (tm c) ! j) \<noteq> t"
      using no nth_mem by fastforce
    then show "applyOper \<lparr>data = \<lparr>key = k, oper = DEL\<rparr>, timeout = t\<rparr> (tm c) = Inr (tm c)"
      by (auto simp: applyOper_def Let_def)
  qed
  ultimately show ?thesis by blast
qed


theorem replay_del_never_panics_witness:
  "reachable stale_bucket_state
   \<and> data (timeouts (tm stale_bucket_state) ! 0) \<noteq> []
   \<and> (\<exists>t'. delKeyTimeout ''k'' 0 (tm stale_bucket_state) = Inr t')
   \<and> (\<exists>t'. applyOperLog (operLog (tm stale_bucket_state)) (tm stale_bucket_state) = Inr t')
   \<and> (\<exists>c'. handleResched 1000000 stale_bucket_state = Inr c')
   \<and> applyOper \<lparr>data = \<lparr>key = ''k'', oper = DEL\<rparr>, timeout = 7\<rparr> (tm stale_bucket_state)
       = Inr (tm stale_bucket_state)"
proof -
  have r: "reachable stale_bucket_state" by (rule reachable_stale_bucket_state)
  have l: "0 < length (timeouts (tm stale_bucket_state))"
    "7 \<notin> timeout ` set (timeouts (tm stale_bucket_state))"
    by (simp_all add: stale_bucket_state_def)
  show ?thesis
    using r l replay_del_never_panics [OF r, of 0 "''k''" "operLog (tm stale_bucket_state)" 1000000 7]
    by blast
qed

subsection \<open>C10: the result of Remove\<close>





end
